theory Spec2Isabelle
  imports Complex_Main
begin

section \<open>CSV quick-look (day02-mirco-clis/tool3\_csv\_quicklook.py)\<close>

subsection \<open>Strings\<close>

text \<open>
  A Python \<open>str\<close> is a sequence of Unicode code points. A code point is modelled as a
  natural number, so that the whitespace beyond Latin-1 that \<open>str.strip\<close> removes is
  part of the model. \<open>str_of\<close> turns a literal into its code points.
\<close>

type_synonym pychar = nat
type_synonym pystr = "pychar list"

definition str_of :: "string \<Rightarrow> pystr" where
  "str_of s = map of_char s"

text \<open>
  \<open>str.isspace\<close> on one character, which is the set \<open>str.strip()\<close> removes when it is
  called without an argument: U+0009..U+000D, U+001C..U+0020, U+0085, U+00A0, U+1680,
  U+2000..U+200A, U+2028, U+2029, U+202F, U+205F, U+3000.
\<close>

definition isspace :: "pychar \<Rightarrow> bool" where
  "isspace c \<longleftrightarrow>
     (9 \<le> c \<and> c \<le> 13) \<or> (28 \<le> c \<and> c \<le> 32) \<or> c = 133 \<or> c = 160 \<or> c = 5760 \<or>
     (8192 \<le> c \<and> c \<le> 8202) \<or> c = 8232 \<or> c = 8233 \<or> c = 8239 \<or> c = 8287 \<or>
     c = 12288"

text \<open>\<open>value.strip()\<close>: whitespace is dropped at the front, then at the back.\<close>

definition strip :: "pystr \<Rightarrow> pystr" where
  "strip s = rev (dropWhile isspace (rev (dropWhile isspace s)))"

text \<open>\<open>is_missing\<close>, line 32: \<open>return value.strip() == ""\<close>.\<close>

definition is_missing :: "pystr \<Rightarrow> bool" where
  "is_missing v \<longleftrightarrow> strip v = []"

text \<open>
  \<open>is_number\<close>, lines 43-47. \<open>float\<close> is the host's parser; it is a parameter of the
  model, \<open>None\<close> standing for the \<open>ValueError\<close> that the \<open>except\<close> clause catches.
\<close>

definition is_number :: "(pystr \<Rightarrow> 'f option) \<Rightarrow> pystr \<Rightarrow> bool" where
  "is_number float_of v = (case float_of v of Some _ \<Rightarrow> True | None \<Rightarrow> False)"

text \<open>
  An instance of \<open>float\<close> for the examples, after the grammar of the library reference
  (built-in \<open>float\<close>): surrounding whitespace, a sign, then \<open>inf\<close>, \<open>infinity\<close> or \<open>nan\<close> in
  any case, or digits (single underscores between them) with a point and an exponent.
  The whitespace that \<open>float\<close> drops is that of \<open>str.strip\<close> without U+001C..U+001F. The
  instance knows the digits 0 to 9 only: the host also accepts the other Unicode decimal
  digits, on which the instance gives \<open>None\<close>. No general statement below depends on it.
\<close>

definition float_space :: "pychar \<Rightarrow> bool" where
  "float_space c \<longleftrightarrow> isspace c \<and> \<not> (28 \<le> c \<and> c \<le> 31)"

definition is_digit :: "pychar \<Rightarrow> bool" where
  "is_digit c \<longleftrightarrow> 48 \<le> c \<and> c \<le> 57"

fun digitpart_tail :: "pystr \<Rightarrow> pystr" where
  "digitpart_tail [] = []"
| "digitpart_tail [c] = (if is_digit c then [] else [c])"
| "digitpart_tail (c # d # s) =
     (if is_digit c then digitpart_tail (d # s)
      else if c = 95 \<and> is_digit d then digitpart_tail s
      else c # d # s)"

definition digitpart :: "pystr \<Rightarrow> pystr option" where
  "digitpart s =
     (case s of [] \<Rightarrow> None
      | c # t \<Rightarrow> if is_digit c then Some (digitpart_tail t) else None)"

definition exponent_ok :: "pystr \<Rightarrow> bool" where
  "exponent_ok s =
     (case s of [] \<Rightarrow> True
      | c # t \<Rightarrow>
          (c = 101 \<or> c = 69) \<and>
          digitpart (case t of [] \<Rightarrow> [] | x # u \<Rightarrow> if x = 43 \<or> x = 45 then u else t) = Some [])"

definition floatnumber_ok :: "pystr \<Rightarrow> bool" where
  "floatnumber_ok s =
     (case digitpart s of
        Some r \<Rightarrow>
          (case r of [] \<Rightarrow> True
           | c # r2 \<Rightarrow>
               if c = 46 then
                 (case digitpart r2 of Some r3 \<Rightarrow> exponent_ok r3 | None \<Rightarrow> exponent_ok r2)
               else exponent_ok r)
      | None \<Rightarrow>
          (case s of [] \<Rightarrow> False
           | c # r2 \<Rightarrow>
               c = 46 \<and> (case digitpart r2 of Some r3 \<Rightarrow> exponent_ok r3 | None \<Rightarrow> False)))"

definition ascii_lower :: "pystr \<Rightarrow> pystr" where
  "ascii_lower s = map (\<lambda>c. if 65 \<le> c \<and> c \<le> 90 then c + 32 else c) s"

definition ascii_float :: "pystr \<Rightarrow> unit option" where
  "ascii_float v =
     (let s = rev (dropWhile float_space (rev (dropWhile float_space v)));
          t = (case s of [] \<Rightarrow> [] | c # u \<Rightarrow> if c = 43 \<or> c = 45 then u else s)
      in if ascii_lower t \<in> {str_of ''inf'', str_of ''infinity'', str_of ''nan''}
            \<or> floatnumber_ok t
         then Some () else None)"

subsection \<open>Errors\<close>

text \<open>
  The exits of \<open>main\<close>: \<open>SystemExit\<close> with one of its four messages (lines 59, 69, 72, 83),
  a \<open>KeyError\<close> from subscripting a dict, and the \<open>ZeroDivisionError\<close> of \<open>/\<close>.
\<close>

datatype exit_msg = HeadNegative | FileNotFound | NotAFile | NoHeaderRow

datatype py_error = SystemExit exit_msg | KeyError pystr | ZeroDivisionError

subsection \<open>Rows, the heap and the state of the pass\<close>

text \<open>
  A row is the dict that \<open>csv.DictReader\<close> yields, restricted to its string keys: a
  field is a string, or \<open>None\<close> where the line was shorter than the header. The entry
  under the key \<open>None\<close>, which holds the surplus fields of a longer line, is left out: the
  program looks a row up by column names only.

  Dicts are objects: \<open>preview_rows.append(row)\<close> stores a reference. The heap maps the
  address of each row object to its contents, and \<open>preview_rows\<close> is a list of addresses.
  The addresses below \<open>next_addr\<close> are the ones in use.
\<close>

type_synonym row = "pystr \<rightharpoonup> pystr option"
type_synonym addr = nat

record state =
  heap :: "addr \<Rightarrow> row"
  next_addr :: addr
  row_count :: int
  preview_rows :: "addr list"
  missing_counts :: "pystr \<rightharpoonup> int"
  numeric_possible :: "pystr \<rightharpoonup> bool"
  non_missing_seen :: "pystr \<rightharpoonup> int"

text \<open>
  What \<open>main\<close> receives: \<open>args.head\<close>, the two tests on the path, and what the reader
  gives for the file and the delimiter: \<open>reader.fieldnames\<close> (\<open>None\<close> for a file without
  a first line, the empty list for a blank first line) and the rows it yields.
\<close>

record input =
  args_head :: int
  path_exists :: bool
  path_is_file :: bool
  reader_fieldnames :: "pystr list option"
  reader_rows :: "row list"

text \<open>\<open>{c: v for c in columns}\<close>, lines 88-90.\<close>

definition dict_from_keys :: "pystr list \<Rightarrow> 'v \<Rightarrow> (pystr \<rightharpoonup> 'v)" where
  "dict_from_keys columns v = foldl (\<lambda>m c. m(c \<mapsto> v)) Map.empty columns"

definition init_state :: "pystr list \<Rightarrow> state" where
  "init_state columns =
     \<lparr>heap = (\<lambda>_. Map.empty), next_addr = 0, row_count = 0, preview_rows = [],
      missing_counts = dict_from_keys columns 0,
      numeric_possible = dict_from_keys columns True,
      non_missing_seen = dict_from_keys columns 0\<rparr>"

text \<open>Each \<open>next(reader)\<close> builds a new dict: the row is stored at a fresh address.\<close>

definition reader_next :: "row \<Rightarrow> state \<Rightarrow> addr \<times> state" where
  "reader_next r st =
     (next_addr st, st\<lparr>heap := (heap st)(next_addr st := r), next_addr := Suc (next_addr st)\<rparr>)"

text \<open>Lines 103 and 107: \<open>val = row.get(c, "")\<close>, then \<open>"" if val is None else str(val)\<close>.\<close>

definition row_val :: "row \<Rightarrow> pystr \<Rightarrow> pystr" where
  "row_val r c =
     (let val = (case r c of None \<Rightarrow> Some [] | Some x \<Rightarrow> x)
      in case val of None \<Rightarrow> [] | Some s \<Rightarrow> s)"

text \<open>Lines 103-115, the body of \<open>for c in columns\<close>, for the row object at address \<open>a\<close>.\<close>

definition main_col_step :: "(pystr \<Rightarrow> 'f option) \<Rightarrow> addr \<Rightarrow> state \<Rightarrow> pystr \<Rightarrow> py_error + state" where
  "main_col_step float_of a st c =
     (let val = row_val (heap st a) c in
      if is_missing val then
        (case missing_counts st c of
           None \<Rightarrow> Inl (KeyError c)
         | Some m \<Rightarrow> Inr (st\<lparr>missing_counts := (missing_counts st)(c \<mapsto> m + 1)\<rparr>))
      else
        (case non_missing_seen st c of
           None \<Rightarrow> Inl (KeyError c)
         | Some n \<Rightarrow>
             (let st1 = st\<lparr>non_missing_seen := (non_missing_seen st)(c \<mapsto> n + 1)\<rparr> in
              case numeric_possible st1 c of
                None \<Rightarrow> Inl (KeyError c)
              | Some b \<Rightarrow>
                  if b \<and> \<not> is_number float_of (strip val)
                  then Inr (st1\<lparr>numeric_possible := (numeric_possible st1)(c \<mapsto> False)\<rparr>)
                  else Inr st1)))"

fun main_columns_loop :: "(pystr \<Rightarrow> 'f option) \<Rightarrow> addr \<Rightarrow> pystr list \<Rightarrow> state \<Rightarrow> py_error + state" where
  "main_columns_loop float_of a [] st = Inr st"
| "main_columns_loop float_of a (c # cs) st =
     (case main_col_step float_of a st c of
        Inl e \<Rightarrow> Inl e
      | Inr st' \<Rightarrow> main_columns_loop float_of a cs st')"

text \<open>Lines 95-115, the body of \<open>for row in reader\<close>, for the row object at address \<open>a\<close>.\<close>

definition main_row_step :: "(pystr \<Rightarrow> 'f option) \<Rightarrow> int \<Rightarrow> pystr list \<Rightarrow> addr \<Rightarrow> state \<Rightarrow> py_error + state" where
  "main_row_step float_of head columns a st =
     (let st1 = st\<lparr>row_count := row_count st + 1\<rparr>;
          st2 = (if int (length (preview_rows st1)) < head
                 then st1\<lparr>preview_rows := preview_rows st1 @ [a]\<rparr> else st1)
      in main_columns_loop float_of a columns st2)"

fun main_rows_loop :: "(pystr \<Rightarrow> 'f option) \<Rightarrow> int \<Rightarrow> pystr list \<Rightarrow> row list \<Rightarrow> state \<Rightarrow> py_error + state" where
  "main_rows_loop float_of head columns [] st = Inr st"
| "main_rows_loop float_of head columns (r # rs) st =
     (case reader_next r st of
        (a, st1) \<Rightarrow>
          (case main_row_step float_of head columns a st1 of
             Inl e \<Rightarrow> Inl e
           | Inr st2 \<Rightarrow> main_rows_loop float_of head columns rs st2))"

text \<open>Lines 88-115: the three dicts are built, then the rows are read.\<close>

definition main_pass :: "(pystr \<Rightarrow> 'f option) \<Rightarrow> int \<Rightarrow> pystr list \<Rightarrow> row list \<Rightarrow> py_error + state" where
  "main_pass float_of head columns rows =
     main_rows_loop float_of head columns rows (init_state columns)"

subsection \<open>The report\<close>

text \<open>
  \<open>main\<close> prints its results; the model returns what is printed as a value. A percentage
  is a real number: the rounding of the host's floats and the \<open>.1f\<close> format are left out.
\<close>

record column_summary =
  col_name :: pystr
  col_type :: pystr
  miss :: int
  miss_pct :: real

record report =
  rep_row_count :: int
  rep_columns :: "pystr list"
  rep_summary :: "column_summary list"
  rep_preview_shown :: int
  rep_preview :: "(nat \<times> row) list"

text \<open>\<open>a / b\<close> on two ints.\<close>

definition py_truediv :: "int \<Rightarrow> int \<Rightarrow> py_error + real" where
  "py_truediv a b = (if b = 0 then Inl ZeroDivisionError else Inr (real_of_int a / real_of_int b))"

text \<open>Lines 146-154, the body of the summary loop.\<close>

definition main_summary_col :: "state \<Rightarrow> pystr \<Rightarrow> py_error + column_summary" where
  "main_summary_col st c =
     (case missing_counts st c of
        None \<Rightarrow> Inl (KeyError c)
      | Some m \<Rightarrow>
          (case (if row_count st > 0
                 then (case py_truediv m (row_count st) of
                         Inl e \<Rightarrow> Inl e | Inr q \<Rightarrow> Inr (q * 100))
                 else Inr 0) of
             Inl e \<Rightarrow> Inl e
           | Inr pct \<Rightarrow>
               (case non_missing_seen st c of
                  None \<Rightarrow> Inl (KeyError c)
                | Some n \<Rightarrow>
                    if n = 0
                    then Inr \<lparr>col_name = c, col_type = str_of ''empty'', miss = m, miss_pct = pct\<rparr>
                    else
                      (case numeric_possible st c of
                         None \<Rightarrow> Inl (KeyError c)
                       | Some b \<Rightarrow>
                           Inr \<lparr>col_name = c,
                                col_type = (if b then str_of ''numeric'' else str_of ''text''),
                                miss = m, miss_pct = pct\<rparr>))))"

fun main_summary :: "state \<Rightarrow> pystr list \<Rightarrow> py_error + column_summary list" where
  "main_summary st [] = Inr []"
| "main_summary st (c # cs) =
     (case main_summary_col st c of
        Inl e \<Rightarrow> Inl e
      | Inr x \<Rightarrow>
          (case main_summary st cs of
             Inl e \<Rightarrow> Inl e
           | Inr xs \<Rightarrow> Inr (x # xs)))"

text \<open>
  Lines 164-166: the number shown in the heading, and the preview rows numbered from 1,
  each read through its reference when it is printed.
\<close>

definition main_preview :: "state \<Rightarrow> (nat \<times> row) list" where
  "main_preview st =
     zip [1 ..< Suc (length (preview_rows st))] (map (heap st) (preview_rows st))"

definition main :: "(pystr \<Rightarrow> 'f option) \<Rightarrow> input \<Rightarrow> py_error + report" where
  "main float_of inp =
     (if args_head inp < 0 then Inl (SystemExit HeadNegative)
      else if \<not> path_exists inp then Inl (SystemExit FileNotFound)
      else if \<not> path_is_file inp then Inl (SystemExit NotAFile)
      else
        (case reader_fieldnames inp of
           None \<Rightarrow> Inl (SystemExit NoHeaderRow)
         | Some columns \<Rightarrow>
             (case main_pass float_of (args_head inp) columns (reader_rows inp) of
                Inl e \<Rightarrow> Inl e
              | Inr st \<Rightarrow>
                  (case main_summary st columns of
                     Inl e \<Rightarrow> Inl e
                   | Inr summary \<Rightarrow>
                       Inr \<lparr>rep_row_count = row_count st, rep_columns = columns,
                            rep_summary = summary,
                            rep_preview_shown = min (args_head inp) (int (length (preview_rows st))),
                            rep_preview = main_preview st\<rparr>))))"

subsection \<open>Invariant and observers\<close>

text \<open>Every column of the header is a key of the three dicts.\<close>

definition has_columns :: "pystr list \<Rightarrow> state \<Rightarrow> bool" where
  "has_columns columns st \<longleftrightarrow>
     (\<forall>c \<in> set columns. missing_counts st c \<noteq> None \<and> non_missing_seen st c \<noteq> None
        \<and> numeric_possible st c \<noteq> None)"

text \<open>What a finished pass shows: an observer applied to the final state, if there is one.\<close>

definition after_pass :: "(state \<Rightarrow> 'a) \<Rightarrow> py_error + state \<Rightarrow> 'a option" where
  "after_pass f res = (case res of Inl _ \<Rightarrow> None | Inr st \<Rightarrow> Some (f st))"

definition col_counts :: "pystr \<Rightarrow> state \<Rightarrow> int option \<times> int option \<times> int" where
  "col_counts c st = (missing_counts st c, non_missing_seen st c, row_count st)"

definition counts_add_up :: "pystr \<Rightarrow> state \<Rightarrow> bool" where
  "counts_add_up c st =
     (case (missing_counts st c, non_missing_seen st c) of
        (Some m, Some n) \<Rightarrow> m + n = row_count st
      | _ \<Rightarrow> False)"

text \<open>The part of the report that holds the statistics: all of it but the preview.\<close>

definition report_stats :: "report \<Rightarrow> int \<times> pystr list \<times> column_summary list" where
  "report_stats rep = (rep_row_count rep, rep_columns rep, rep_summary rep)"

text \<open>The field that each row of the printed preview shows under the key \<open>c\<close>.\<close>

definition preview_field :: "pystr \<Rightarrow> state \<Rightarrow> pystr option option list" where
  "preview_field c st = map (\<lambda>(i, r). r c) (main_preview st)"

text \<open>\<open>row[k] = v\<close> on the row object at address \<open>a\<close>: a write that \<open>main\<close> never makes.\<close>

definition dict_setitem :: "addr \<Rightarrow> pystr \<Rightarrow> pystr option \<Rightarrow> state \<Rightarrow> state" where
  "dict_setitem a k v st = st\<lparr>heap := (heap st)(a := (heap st a)(k \<mapsto> v))\<rparr>"

text \<open>
  Sample input: the header \<open>a,b\<close> with the lines \<open>1,\<close> and \<open>2.5,x\<close>; the header \<open>a,a\<close>
  with the line \<open>7,1\<close>, for which the reader keeps the last field under \<open>a\<close>, and the
  same header with the line \<open>7,\<close>, whose last field is empty.
\<close>

definition sample_columns :: "pystr list" where
  "sample_columns = [str_of ''a'', str_of ''b'']"

definition sample_rows :: "row list" where
  "sample_rows =
     [[str_of ''a'' \<mapsto> Some (str_of ''1''), str_of ''b'' \<mapsto> Some []],
      [str_of ''a'' \<mapsto> Some (str_of ''2.5''), str_of ''b'' \<mapsto> Some (str_of ''x'')]]"

definition sample_input :: "int \<Rightarrow> input" where
  "sample_input head =
     \<lparr>args_head = head, path_exists = True, path_is_file = True,
      reader_fieldnames = Some sample_columns, reader_rows = sample_rows\<rparr>"

definition dup_columns :: "pystr list" where
  "dup_columns = [str_of ''a'', str_of ''a'']"

definition dup_rows :: "row list" where
  "dup_rows = [[str_of ''a'' \<mapsto> Some (str_of ''1'')]]"

definition dup_blank_input :: input where
  "dup_blank_input =
     \<lparr>args_head = 5, path_exists = True, path_is_file = True,
      reader_fieldnames = Some dup_columns, reader_rows = [[str_of ''a'' \<mapsto> Some []]]\<rparr>"

section \<open>Properties of the parts\<close>

subsection \<open>Trimming\<close>

lemma strip_empty_iff: "strip v = [] \<longleftrightarrow> (\<forall>c \<in> set v. isspace c)"
proof
  assume "strip v = []"
  then have "dropWhile isspace (rev (dropWhile isspace v)) = []"
    by (simp add: strip_def)
  then have "\<forall>c \<in> set (rev (dropWhile isspace v)). isspace c"
    by simp
  then have "dropWhile isspace v = []"
    by (metis hd_dropWhile hd_in_set set_rev)
  then show "\<forall>c \<in> set v. isspace c"
    by simp
next
  assume "\<forall>c \<in> set v. isspace c"
  then have d: "dropWhile isspace v = []"
    by simp
  show "strip v = []"
    unfolding strip_def d by simp
qed

lemma strip_decomp:
  "\<exists>a b. v = a @ strip v @ b \<and> list_all isspace a \<and> list_all isspace b"
proof -
  define w where "w = dropWhile isspace v"
  have 1: "v = takeWhile isspace v @ w"
    by (simp add: w_def)
  have "rev (dropWhile isspace (rev w)) @ rev (takeWhile isspace (rev w)) = rev (rev w)"
    unfolding rev_append [symmetric] takeWhile_dropWhile_id ..
  then have 2: "w = strip v @ rev (takeWhile isspace (rev w))"
    by (simp add: strip_def w_def)
  have 3: "list_all isspace (takeWhile isspace v)"
    "list_all isspace (rev (takeWhile isspace (rev w)))"
    by (auto simp: list_all_iff dest: set_takeWhileD)
  from 1 2 have "v = takeWhile isspace v @ strip v @ rev (takeWhile isspace (rev w))"
    by simp
  with 3 show ?thesis
    by blast
qed

lemma last_dropWhile_eq: "dropWhile P xs \<noteq> [] \<Longrightarrow> last (dropWhile P xs) = last xs"
  by (induction xs) (auto split: if_splits)

lemma strip_ends:
  assumes "strip v \<noteq> []"
  shows "\<not> isspace (hd (strip v)) \<and> \<not> isspace (last (strip v))"
proof -
  define w where "w = dropWhile isspace v"
  have s: "strip v = rev (dropWhile isspace (rev w))"
    by (simp add: strip_def w_def)
  have n: "dropWhile isspace (rev w) \<noteq> []"
    using assms by (simp add: s)
  then have wn: "w \<noteq> []"
    by auto
  have "last (strip v) = hd (dropWhile isspace (rev w))"
    using n by (simp add: s last_rev)
  then have l: "\<not> isspace (last (strip v))"
    using n hd_dropWhile [of isspace "rev w"] by simp
  have "hd (strip v) = last (dropWhile isspace (rev w))"
    using n by (simp add: s hd_rev)
  also have "\<dots> = last (rev w)"
    using n by (rule last_dropWhile_eq)
  also have "\<dots> = hd w"
    using wn by (simp add: last_rev)
  finally have "\<not> isspace (hd (strip v))"
    using wn hd_dropWhile [of isspace v] by (simp add: w_def)
  with l show ?thesis
    by simp
qed

subsection \<open>The effect of the loops\<close>

lemma foldl_upd_apply:
  "foldl (\<lambda>m c. m(c \<mapsto> v)) m0 cs c = (if c \<in> set cs then Some v else m0 c)"
  by (induction cs arbitrary: m0) auto

lemma dict_from_keys_apply:
  "dict_from_keys cs v c = (if c \<in> set cs then Some v else None)"
  by (simp add: dict_from_keys_def foldl_upd_apply)

lemma has_columns_init: "has_columns columns (init_state columns)"
  by (simp add: has_columns_def init_state_def dict_from_keys_apply)

lemma main_col_step_eq:
  assumes "missing_counts st c = Some m" "non_missing_seen st c = Some n"
    "numeric_possible st c = Some b"
  shows "main_col_step fl a st c =
     Inr (if is_missing (row_val (heap st a) c)
          then st\<lparr>missing_counts := (missing_counts st)(c \<mapsto> m + 1)\<rparr>
          else st\<lparr>non_missing_seen := (non_missing_seen st)(c \<mapsto> n + 1),
                  numeric_possible := (numeric_possible st)
                     (c \<mapsto> b \<and> is_number fl (strip (row_val (heap st a) c)))\<rparr>)"
  using assms by (auto simp: main_col_step_def Let_def map_upd_triv)

lemma columns_loop_effect:
  assumes "has_columns cs st"
  shows "\<exists>st'. main_columns_loop fl a cs st = Inr st' \<and>
     heap st' = heap st \<and> next_addr st' = next_addr st \<and> row_count st' = row_count st \<and>
     preview_rows st' = preview_rows st \<and>
     (\<forall>c. missing_counts st' c =
        map_option (\<lambda>m. m + (if is_missing (row_val (heap st a) c) then int (count_list cs c) else 0))
          (missing_counts st c)) \<and>
     (\<forall>c. non_missing_seen st' c =
        map_option (\<lambda>n. n + (if is_missing (row_val (heap st a) c) then 0 else int (count_list cs c)))
          (non_missing_seen st c)) \<and>
     (\<forall>c. numeric_possible st' c =
        map_option (\<lambda>b. b \<and> (c \<in> set cs \<and> \<not> is_missing (row_val (heap st a) c)
                            \<longrightarrow> is_number fl (strip (row_val (heap st a) c))))
          (numeric_possible st c))"
  using assms
proof (induction cs arbitrary: st)
  case Nil
  show ?case by (simp add: option.map_ident)
next
  case (Cons c0 cs)
  from Cons.prems obtain m n b where
    d: "missing_counts st c0 = Some m" "non_missing_seen st c0 = Some n"
       "numeric_possible st c0 = Some b"
    by (auto simp: has_columns_def)
  define st1 where "st1 = (if is_missing (row_val (heap st a) c0)
          then st\<lparr>missing_counts := (missing_counts st)(c0 \<mapsto> m + 1)\<rparr>
          else st\<lparr>non_missing_seen := (non_missing_seen st)(c0 \<mapsto> n + 1),
                  numeric_possible := (numeric_possible st)
                     (c0 \<mapsto> b \<and> is_number fl (strip (row_val (heap st a) c0)))\<rparr>)"
  have step: "main_col_step fl a st c0 = Inr st1"
    unfolding st1_def by (rule main_col_step_eq [OF d])
  have hc: "has_columns cs st1"
    using Cons.prems by (auto simp: has_columns_def st1_def)
  from Cons.IH [OF hc] obtain st' where
    r: "main_columns_loop fl a cs st1 = Inr st'" and
    f: "heap st' = heap st1" "next_addr st' = next_addr st1" "row_count st' = row_count st1"
       "preview_rows st' = preview_rows st1" and
    mc: "\<And>c. missing_counts st' c =
        map_option (\<lambda>m. m + (if is_missing (row_val (heap st1 a) c) then int (count_list cs c) else 0))
          (missing_counts st1 c)" and
    nm: "\<And>c. non_missing_seen st' c =
        map_option (\<lambda>n. n + (if is_missing (row_val (heap st1 a) c) then 0 else int (count_list cs c)))
          (non_missing_seen st1 c)" and
    np: "\<And>c. numeric_possible st' c =
        map_option (\<lambda>b. b \<and> (c \<in> set cs \<and> \<not> is_missing (row_val (heap st1 a) c)
                            \<longrightarrow> is_number fl (strip (row_val (heap st1 a) c))))
          (numeric_possible st1 c)"
    by blast
  have h1: "heap st1 = heap st" "next_addr st1 = next_addr st" "row_count st1 = row_count st"
    "preview_rows st1 = preview_rows st"
    by (simp_all add: st1_def)
  have "main_columns_loop fl a (c0 # cs) st = Inr st'"
    by (simp add: step r)
  moreover have "\<And>c. missing_counts st' c =
        map_option (\<lambda>m. m + (if is_missing (row_val (heap st a) c) then int (count_list (c0 # cs) c) else 0))
          (missing_counts st c)"
    using d by (auto simp: mc h1 st1_def option.map_comp o_def split: option.splits)
  moreover have "\<And>c. non_missing_seen st' c =
        map_option (\<lambda>n. n + (if is_missing (row_val (heap st a) c) then 0 else int (count_list (c0 # cs) c)))
          (non_missing_seen st c)"
    using d by (auto simp: nm h1 st1_def split: option.splits)
  moreover have "\<And>c. numeric_possible st' c =
        map_option (\<lambda>b. b \<and> (c \<in> set (c0 # cs) \<and> \<not> is_missing (row_val (heap st a) c)
                            \<longrightarrow> is_number fl (strip (row_val (heap st a) c))))
          (numeric_possible st c)"
    using d by (auto simp: np h1 st1_def split: option.splits)
  ultimately show ?case
    using f h1 by simp
qed


lemma row_step_effect:
  assumes "has_columns cs st"
  shows "\<exists>st'. main_row_step fl head cs a st = Inr st' \<and>
     heap st' = heap st \<and> next_addr st' = next_addr st \<and> row_count st' = row_count st + 1 \<and>
     preview_rows st' =
       (if int (length (preview_rows st)) < head then preview_rows st @ [a] else preview_rows st) \<and>
     (\<forall>c. missing_counts st' c =
        map_option (\<lambda>m. m + (if is_missing (row_val (heap st a) c) then int (count_list cs c) else 0))
          (missing_counts st c)) \<and>
     (\<forall>c. non_missing_seen st' c =
        map_option (\<lambda>n. n + (if is_missing (row_val (heap st a) c) then 0 else int (count_list cs c)))
          (non_missing_seen st c)) \<and>
     (\<forall>c. numeric_possible st' c =
        map_option (\<lambda>b. b \<and> (c \<in> set cs \<and> \<not> is_missing (row_val (heap st a) c)
                            \<longrightarrow> is_number fl (strip (row_val (heap st a) c))))
          (numeric_possible st c))"
proof -
  define st2 where "st2 =
     (if int (length (preview_rows st)) < head
      then st\<lparr>row_count := row_count st + 1, preview_rows := preview_rows st @ [a]\<rparr>
      else st\<lparr>row_count := row_count st + 1\<rparr>)"
  have e: "main_row_step fl head cs a st = main_columns_loop fl a cs st2"
    by (simp add: main_row_step_def st2_def Let_def)
  have hc: "has_columns cs st2"
    using assms by (simp add: has_columns_def st2_def)
  have s2: "heap st2 = heap st" "next_addr st2 = next_addr st"
    "row_count st2 = row_count st + 1"
    "preview_rows st2 =
       (if int (length (preview_rows st)) < head then preview_rows st @ [a] else preview_rows st)"
    "missing_counts st2 = missing_counts st" "non_missing_seen st2 = non_missing_seen st"
    "numeric_possible st2 = numeric_possible st"
    by (simp_all add: st2_def)
  show ?thesis
    using columns_loop_effect [OF hc, of fl a] unfolding e s2 .
qed

lemma has_columns_preserved:
  assumes "has_columns cs st"
    and "\<And>c. missing_counts st' c = map_option (f c) (missing_counts st c)"
    and "\<And>c. non_missing_seen st' c = map_option (g c) (non_missing_seen st c)"
    and "\<And>c. numeric_possible st' c = map_option (h c) (numeric_possible st c)"
  shows "has_columns cs st'"
  using assms by (simp add: has_columns_def)

lemma rows_loop_stats:
  assumes "has_columns cs st"
  shows "\<exists>st'. main_rows_loop fl head cs rs st = Inr st' \<and>
     row_count st' = row_count st + int (length rs) \<and>
     (\<forall>c. missing_counts st' c =
        map_option (\<lambda>m. m + int (count_list cs c) *
                       int (length (filter (\<lambda>r. is_missing (row_val r c)) rs)))
          (missing_counts st c)) \<and>
     (\<forall>c. non_missing_seen st' c =
        map_option (\<lambda>n. n + int (count_list cs c) *
                       int (length (filter (\<lambda>r. \<not> is_missing (row_val r c)) rs)))
          (non_missing_seen st c)) \<and>
     (\<forall>c. numeric_possible st' c =
        map_option (\<lambda>b. b \<and> (c \<in> set cs \<longrightarrow>
                       (\<forall>r \<in> set rs. \<not> is_missing (row_val r c)
                            \<longrightarrow> is_number fl (strip (row_val r c)))))
          (numeric_possible st c))"
  using assms
proof (induction rs arbitrary: st)
  case Nil
  show ?case by (simp add: option.map_ident)
next
  case (Cons r rs)
  define a where "a = next_addr st"
  define st1 where "st1 = st\<lparr>heap := (heap st)(a := r), next_addr := Suc a\<rparr>"
  have rn: "reader_next r st = (a, st1)"
    by (simp add: reader_next_def a_def st1_def)
  have hc1: "has_columns cs st1"
    using Cons.prems by (simp add: has_columns_def st1_def)
  have v: "heap st1 a = r"
    by (simp add: st1_def)
  have s1: "row_count st1 = row_count st" "missing_counts st1 = missing_counts st"
    "non_missing_seen st1 = non_missing_seen st" "numeric_possible st1 = numeric_possible st"
    by (simp_all add: st1_def)
  from row_step_effect [OF hc1, of fl head a] obtain st2 where
    rs2: "main_row_step fl head cs a st1 = Inr st2" and
    rc2: "row_count st2 = row_count st + 1" and
    mc2: "\<And>c. missing_counts st2 c =
        map_option (\<lambda>m. m + (if is_missing (row_val r c) then int (count_list cs c) else 0))
          (missing_counts st c)" and
    nm2: "\<And>c. non_missing_seen st2 c =
        map_option (\<lambda>n. n + (if is_missing (row_val r c) then 0 else int (count_list cs c)))
          (non_missing_seen st c)" and
    np2: "\<And>c. numeric_possible st2 c =
        map_option (\<lambda>b. b \<and> (c \<in> set cs \<and> \<not> is_missing (row_val r c)
                            \<longrightarrow> is_number fl (strip (row_val r c))))
          (numeric_possible st c)"
    unfolding v s1 by blast
  have hc2: "has_columns cs st2"
    by (rule has_columns_preserved [OF Cons.prems mc2 nm2 np2])
  from Cons.IH [OF hc2] obtain st' where
    l: "main_rows_loop fl head cs rs st2 = Inr st'" and
    rc: "row_count st' = row_count st2 + int (length rs)" and
    mc: "\<And>c. missing_counts st' c =
        map_option (\<lambda>m. m + int (count_list cs c) *
                       int (length (filter (\<lambda>r. is_missing (row_val r c)) rs)))
          (missing_counts st2 c)" and
    nm: "\<And>c. non_missing_seen st' c =
        map_option (\<lambda>n. n + int (count_list cs c) *
                       int (length (filter (\<lambda>r. \<not> is_missing (row_val r c)) rs)))
          (non_missing_seen st2 c)" and
    np: "\<And>c. numeric_possible st' c =
        map_option (\<lambda>b. b \<and> (c \<in> set cs \<longrightarrow>
                       (\<forall>r \<in> set rs. \<not> is_missing (row_val r c)
                            \<longrightarrow> is_number fl (strip (row_val r c)))))
          (numeric_possible st2 c)"
    by blast
  have "main_rows_loop fl head cs (r # rs) st = Inr st'"
    by (simp add: rn rs2 l)
  moreover have "row_count st' = row_count st + int (length (r # rs))"
    by (simp add: rc rc2)
  moreover have "\<And>c. missing_counts st' c =
        map_option (\<lambda>m. m + int (count_list cs c) *
                       int (length (filter (\<lambda>r. is_missing (row_val r c)) (r # rs))))
          (missing_counts st c)"
    by (simp add: mc mc2 option.map_comp o_def algebra_simps)
  moreover have "\<And>c. non_missing_seen st' c =
        map_option (\<lambda>n. n + int (count_list cs c) *
                       int (length (filter (\<lambda>r. \<not> is_missing (row_val r c)) (r # rs))))
          (non_missing_seen st c)"
    by (simp add: nm nm2 option.map_comp o_def algebra_simps)
  moreover have "numeric_possible st' c =
        map_option (\<lambda>b. b \<and> (c \<in> set cs \<longrightarrow>
                       (\<forall>r \<in> set (r # rs). \<not> is_missing (row_val r c)
                            \<longrightarrow> is_number fl (strip (row_val r c)))))
          (numeric_possible st c)" for c
    by (cases "numeric_possible st c") (auto simp: np np2)
  ultimately show ?case
    by blast
qed


lemma rows_loop_heap:
  assumes "has_columns cs st"
  shows "\<exists>st'. main_rows_loop fl head cs rs st = Inr st' \<and>
     next_addr st' = next_addr st + length rs \<and>
     (\<forall>x. heap st' x =
        (if next_addr st \<le> x \<and> x < next_addr st + length rs
         then rs ! (x - next_addr st) else heap st x)) \<and>
     preview_rows st' = preview_rows st @
        [next_addr st ..<
           next_addr st + min (length rs) (nat (head - int (length (preview_rows st))))]"
  using assms
proof (induction rs arbitrary: st)
  case Nil
  show ?case by auto
next
  case (Cons r rs)
  define a where "a = next_addr st"
  define st1 where "st1 = st\<lparr>heap := (heap st)(a := r), next_addr := Suc a\<rparr>"
  have rn: "reader_next r st = (a, st1)"
    by (simp add: reader_next_def a_def st1_def)
  have hc1: "has_columns cs st1"
    using Cons.prems by (simp add: has_columns_def st1_def)
  have s1: "heap st1 = (heap st)(a := r)" "next_addr st1 = Suc a"
    "preview_rows st1 = preview_rows st"
    by (simp_all add: st1_def)
  from row_step_effect [OF hc1, of fl head a] obtain st2 where
    rs2: "main_row_step fl head cs a st1 = Inr st2" and
    h2: "heap st2 = (heap st)(a := r)" and
    n2: "next_addr st2 = Suc a" and
    p2: "preview_rows st2 =
       (if int (length (preview_rows st)) < head then preview_rows st @ [a] else preview_rows st)" and
    mc2: "\<And>c. missing_counts st2 c =
        map_option (\<lambda>m. m + (if is_missing (row_val (heap st1 a) c) then int (count_list cs c) else 0))
          (missing_counts st1 c)" and
    nm2: "\<And>c. non_missing_seen st2 c =
        map_option (\<lambda>n. n + (if is_missing (row_val (heap st1 a) c) then 0 else int (count_list cs c)))
          (non_missing_seen st1 c)" and
    np2: "\<And>c. numeric_possible st2 c =
        map_option (\<lambda>b. b \<and> (c \<in> set cs \<and> \<not> is_missing (row_val (heap st1 a) c)
                            \<longrightarrow> is_number fl (strip (row_val (heap st1 a) c))))
          (numeric_possible st1 c)"
    unfolding s1 by blast
  have hc2: "has_columns cs st2"
    by (rule has_columns_preserved [OF hc1 mc2 nm2 np2])
  from Cons.IH [OF hc2] obtain st' where
    l: "main_rows_loop fl head cs rs st2 = Inr st'" and
    n: "next_addr st' = Suc a + length rs" and
    h: "\<And>x. heap st' x =
        (if Suc a \<le> x \<and> x < Suc a + length rs
         then rs ! (x - Suc a) else ((heap st)(a := r)) x)" and
    p: "preview_rows st' = preview_rows st2 @
        [Suc a ..< Suc a + min (length rs) (nat (head - int (length (preview_rows st2))))]"
    unfolding h2 n2 by blast
  have "main_rows_loop fl head cs (r # rs) st = Inr st'"
    by (simp add: rn rs2 l)
  moreover have "next_addr st' = next_addr st + length (r # rs)"
    by (simp add: n a_def)
  moreover have "heap st' x =
        (if next_addr st \<le> x \<and> x < next_addr st + length (r # rs)
         then (r # rs) ! (x - next_addr st) else heap st x)" for x
    unfolding h a_def [symmetric]
    by (auto simp: nth_Cons' Suc_diff_le)
  moreover have "preview_rows st' = preview_rows st @
        [next_addr st ..<
           next_addr st + min (length (r # rs)) (nat (head - int (length (preview_rows st))))]"
  proof (cases "int (length (preview_rows st)) < head")
    case True
    define k where "k = nat (head - int (length (preview_rows st)))"
    have k: "0 < k" using True by (simp add: k_def)
    have k1: "nat (head - int (length (preview_rows st @ [a]))) = k - 1"
      by (simp add: k_def)
    have m: "min (length (r # rs)) k = Suc (min (length rs) (k - 1))"
      using k by (cases k) simp_all
    have p2': "preview_rows st2 = preview_rows st @ [a]"
      using True p2 by simp
    have u: "[a] @ [Suc a ..< Suc a + j] = [a ..< a + Suc j]" for j
      by (simp add: upt_conv_Cons)
    have "preview_rows st' =
        preview_rows st @ ([a] @ [Suc a ..< Suc a + min (length rs) (k - 1)])"
      using p unfolding p2' k1 by simp
    then have "preview_rows st' = preview_rows st @ [a ..< a + min (length (r # rs)) k]"
      by (simp only: u m)
    then show ?thesis
      unfolding a_def k_def .
  next
    case False
    then show ?thesis
      unfolding p p2 a_def [symmetric] by simp
  qed
  ultimately show ?case
    by blast
qed

subsection \<open>The pass and its report\<close>

lemma main_pass_stats:
  "\<exists>st. main_pass fl head cols rows = Inr st \<and> has_columns cols st \<and>
     row_count st = int (length rows) \<and>
     (\<forall>c \<in> set cols.
        missing_counts st c =
          Some (int (count_list cols c) *
                int (length (filter (\<lambda>r. is_missing (row_val r c)) rows))) \<and>
        non_missing_seen st c =
          Some (int (count_list cols c) *
                int (length (filter (\<lambda>r. \<not> is_missing (row_val r c)) rows))) \<and>
        numeric_possible st c =
          Some (\<forall>r \<in> set rows. \<not> is_missing (row_val r c)
                  \<longrightarrow> is_number fl (strip (row_val r c))))"
proof -
  from rows_loop_stats [OF has_columns_init, where fl = fl and head = head and rs = rows and cs = cols] obtain st where
    l: "main_rows_loop fl head cols rows (init_state cols) = Inr st" and
    rc: "row_count st = row_count (init_state cols) + int (length rows)" and
    mc: "\<And>c. missing_counts st c =
        map_option (\<lambda>m. m + int (count_list cols c) *
                       int (length (filter (\<lambda>r. is_missing (row_val r c)) rows)))
          (missing_counts (init_state cols) c)" and
    nm: "\<And>c. non_missing_seen st c =
        map_option (\<lambda>n. n + int (count_list cols c) *
                       int (length (filter (\<lambda>r. \<not> is_missing (row_val r c)) rows)))
          (non_missing_seen (init_state cols) c)" and
    np: "\<And>c. numeric_possible st c =
        map_option (\<lambda>b. b \<and> (c \<in> set cols \<longrightarrow>
                       (\<forall>r \<in> set rows. \<not> is_missing (row_val r c)
                            \<longrightarrow> is_number fl (strip (row_val r c)))))
          (numeric_possible (init_state cols) c)"
    by blast
  have hc: "has_columns cols st"
    by (rule has_columns_preserved [OF has_columns_init mc nm np])
  have "main_pass fl head cols rows = Inr st"
    by (simp add: main_pass_def l)
  moreover have "row_count st = int (length rows)"
    by (simp add: rc init_state_def)
  moreover have "\<forall>c \<in> set cols.
        missing_counts st c =
          Some (int (count_list cols c) *
                int (length (filter (\<lambda>r. is_missing (row_val r c)) rows))) \<and>
        non_missing_seen st c =
          Some (int (count_list cols c) *
                int (length (filter (\<lambda>r. \<not> is_missing (row_val r c)) rows))) \<and>
        numeric_possible st c =
          Some (\<forall>r \<in> set rows. \<not> is_missing (row_val r c)
                  \<longrightarrow> is_number fl (strip (row_val r c)))"
    by (simp add: mc nm np init_state_def dict_from_keys_apply)
  ultimately show ?thesis
    using hc by blast
qed

lemma main_summary_col_eq:
  assumes "missing_counts st c = Some m" "non_missing_seen st c = Some n"
    "numeric_possible st c = Some b"
  shows "main_summary_col st c =
     Inr \<lparr>col_name = c,
          col_type = (if n = 0 then str_of ''empty''
                      else if b then str_of ''numeric'' else str_of ''text''),
          miss = m,
          miss_pct = (if row_count st > 0
                      then real_of_int m / real_of_int (row_count st) * 100 else 0)\<rparr>"
  using assms by (simp add: main_summary_col_def py_truediv_def)

lemma main_summary_cols:
  assumes "has_columns cs st"
  shows "\<exists>summ. main_summary st cs = Inr summ \<and> length summ = length cs \<and>
     (\<forall>i < length cs. main_summary_col st (cs ! i) = Inr (summ ! i))"
  using assms
proof (induction cs)
  case Nil
  show ?case by simp
next
  case (Cons c cs)
  from Cons.prems obtain m n b where
    d: "missing_counts st c = Some m" "non_missing_seen st c = Some n"
       "numeric_possible st c = Some b"
    by (auto simp: has_columns_def)
  from main_summary_col_eq [OF d] obtain x where x: "main_summary_col st c = Inr x"
    by blast
  have "has_columns cs st"
    using Cons.prems by (simp add: has_columns_def)
  from Cons.IH [OF this] obtain summ where
    s: "main_summary st cs = Inr summ" "length summ = length cs"
       "\<forall>i < length cs. main_summary_col st (cs ! i) = Inr (summ ! i)"
    by blast
  have "main_summary st (c # cs) = Inr (x # summ)"
    by (simp add: x s)
  moreover have "\<forall>i < length (c # cs). main_summary_col st ((c # cs) ! i) = Inr ((x # summ) ! i)"
    using x s by (auto simp: nth_Cons')
  ultimately show ?case
    using s(2) by auto
qed

lemma label_distinct:
  "str_of ''empty'' \<noteq> str_of ''numeric''" "str_of ''empty'' \<noteq> str_of ''text''"
  "str_of ''numeric'' \<noteq> str_of ''text''"
  by (simp_all add: str_of_def)

lemma main_rows_loop_append:
  "main_rows_loop fl head cs (xs @ ys) st =
     (case main_rows_loop fl head cs xs st of
        Inl e \<Rightarrow> Inl e
      | Inr st1 \<Rightarrow> main_rows_loop fl head cs ys st1)"
  by (induction xs arbitrary: st) (auto split: sum.splits prod.splits)

lemma counts_multiplicity:
  assumes "c \<in> set cols"
  shows "\<exists>st m n. main_pass fl head cols rows = Inr st \<and>
     missing_counts st c = Some m \<and> non_missing_seen st c = Some n \<and>
     m + n = int (count_list cols c) * row_count st"
proof -
  have len: "length (filter P rows) + length (filter (\<lambda>r. \<not> P r) rows) = length rows"
    for P :: "row \<Rightarrow> bool"
    by (rule sum_length_filter_compl)
  have "int (count_list cols c) * int (length (filter (\<lambda>r. is_missing (row_val r c)) rows)) +
        int (count_list cols c) * int (length (filter (\<lambda>r. \<not> is_missing (row_val r c)) rows)) =
        int (count_list cols c) * int (length rows)"
    unfolding distrib_left [symmetric] of_nat_add [symmetric] len ..
  then show ?thesis
    using main_pass_stats [where fl = fl and head = head and cols = cols and rows = rows] assms
    by force
qed

lemma count_list_distinct:
  "distinct xs \<Longrightarrow> x \<in> set xs \<Longrightarrow> count_list xs x = 1"
  by (induction xs) auto

text \<open>
  Where the two counters add up: for a name that the header has exactly once, after
  every sequence of rows \<open>missing_counts\<close> and \<open>non_missing_seen\<close> of the column add up to
  \<open>row_count\<close>, and each further row adds 1 to \<open>row_count\<close> and 1 to exactly one of the two
  counters. For a name that the header has k times the sum is k times \<open>row_count\<close>
  (\<open>counts_multiplicity\<close>).
\<close>

lemma counts_add_up_single:
  assumes "count_list cols c = 1"
  shows "\<exists>st m n.
     main_pass fl head cols rows = Inr st \<and> row_count st = int (length rows) \<and>
     missing_counts st c = Some m \<and> non_missing_seen st c = Some n \<and>
     m + n = row_count st \<and>
     (\<forall>r. \<exists>st'. main_rows_loop fl head cols [r] st = Inr st' \<and>
        row_count st' = row_count st + 1 \<and>
        (missing_counts st' c = Some (m + 1) \<and> non_missing_seen st' c = Some n \<or>
         missing_counts st' c = Some m \<and> non_missing_seen st' c = Some (n + 1)))"
proof -
  note k = assms
  have cin: "c \<in> set cols"
    using k count_list_0_iff [of cols c] by auto
  from main_pass_stats [where fl = fl and head = head and cols = cols and rows = rows]
  obtain st where
    p: "main_pass fl head cols rows = Inr st" and hc: "has_columns cols st" and
    rc: "row_count st = int (length rows)"
    by blast
  from counts_multiplicity [OF cin, of fl head rows] p obtain m n where
    mn: "missing_counts st c = Some m" "non_missing_seen st c = Some n" "m + n = row_count st"
    by (auto simp: k)
  have "\<exists>st'. main_rows_loop fl head cols [r] st = Inr st' \<and>
        row_count st' = row_count st + 1 \<and>
        (missing_counts st' c = Some (m + 1) \<and> non_missing_seen st' c = Some n \<or>
         missing_counts st' c = Some m \<and> non_missing_seen st' c = Some (n + 1))" for r
    using rows_loop_stats [OF hc, where fl = fl and head = head and rs = "[r]"]
    by (auto simp: mn k)
  then show ?thesis
    using p rc mn by blast
qed

lemma map_nth_upt_take:
  "map (\<lambda>x. if x < length rows then rows ! x else d x) [0 ..< min (length rows) k] = take k rows"
  by (rule nth_equalityI) auto

lemma main_pass_preview:
  "\<exists>st. main_pass fl head cols rows = Inr st \<and> has_columns cols st \<and>
     row_count st = int (length rows) \<and> next_addr st = length rows \<and>
     preview_rows st = [0 ..< min (length rows) (nat head)] \<and>
     map (heap st) (preview_rows st) = take (nat head) rows"
proof -
  from main_pass_stats [where fl = fl and head = head and cols = cols and rows = rows]
  obtain st where
    p: "main_pass fl head cols rows = Inr st" and hc: "has_columns cols st" and
    rc: "row_count st = int (length rows)"
    by blast
  from rows_loop_heap [OF has_columns_init, where fl = fl and head = head and rs = rows
      and cs = cols] p
  have n: "next_addr st = length rows"
    and h: "\<And>x. heap st x = (if x < length rows then rows ! x else Map.empty)"
    and pr: "preview_rows st = [0 ..< min (length rows) (nat head)]"
    by (auto simp: main_pass_def init_state_def)
  have "map (heap st) (preview_rows st) = take (nat head) rows"
    unfolding pr using map_nth_upt_take [of rows "\<lambda>_. Map.empty" "nat head"]
    by (simp add: h [abs_def])
  then show ?thesis
    using p hc rc n pr by blast
qed

lemma main_summary_cong:
  assumes "row_count st1 = row_count st2" "missing_counts st1 = missing_counts st2"
    "non_missing_seen st1 = non_missing_seen st2" "numeric_possible st1 = numeric_possible st2"
  shows "main_summary st1 cs = main_summary st2 cs"
proof -
  have c: "main_summary_col st1 c = main_summary_col st2 c" for c
    unfolding main_summary_col_def assms ..
  show ?thesis
    by (induction cs) (simp_all add: c split: sum.splits)
qed

lemma pass_stats_independent_of_head:
  "\<exists>st1 st2. main_pass fl h1 cols rows = Inr st1 \<and> main_pass fl h2 cols rows = Inr st2 \<and>
     row_count st1 = row_count st2 \<and> missing_counts st1 = missing_counts st2 \<and>
     non_missing_seen st1 = non_missing_seen st2 \<and>
     numeric_possible st1 = numeric_possible st2"
proof -
  from rows_loop_stats [OF has_columns_init, where fl = fl and head = h1 and rs = rows
      and cs = cols]
  obtain st1 where
    p1: "main_pass fl h1 cols rows = Inr st1" and
    rc1: "row_count st1 = row_count (init_state cols) + int (length rows)" and
    mc1: "\<And>c. missing_counts st1 c =
        map_option (\<lambda>m. m + int (count_list cols c) *
                       int (length (filter (\<lambda>r. is_missing (row_val r c)) rows)))
          (missing_counts (init_state cols) c)" and
    nm1: "\<And>c. non_missing_seen st1 c =
        map_option (\<lambda>n. n + int (count_list cols c) *
                       int (length (filter (\<lambda>r. \<not> is_missing (row_val r c)) rows)))
          (non_missing_seen (init_state cols) c)" and
    np1: "\<And>c. numeric_possible st1 c =
        map_option (\<lambda>b. b \<and> (c \<in> set cols \<longrightarrow>
                       (\<forall>r \<in> set rows. \<not> is_missing (row_val r c)
                            \<longrightarrow> is_number fl (strip (row_val r c)))))
          (numeric_possible (init_state cols) c)"
    unfolding main_pass_def by blast
  from rows_loop_stats [OF has_columns_init, where fl = fl and head = h2 and rs = rows
      and cs = cols]
  obtain st2 where
    p2: "main_pass fl h2 cols rows = Inr st2" and
    rc2: "row_count st2 = row_count (init_state cols) + int (length rows)" and
    mc2: "\<And>c. missing_counts st2 c =
        map_option (\<lambda>m. m + int (count_list cols c) *
                       int (length (filter (\<lambda>r. is_missing (row_val r c)) rows)))
          (missing_counts (init_state cols) c)" and
    nm2: "\<And>c. non_missing_seen st2 c =
        map_option (\<lambda>n. n + int (count_list cols c) *
                       int (length (filter (\<lambda>r. \<not> is_missing (row_val r c)) rows)))
          (non_missing_seen (init_state cols) c)" and
    np2: "\<And>c. numeric_possible st2 c =
        map_option (\<lambda>b. b \<and> (c \<in> set cols \<longrightarrow>
                       (\<forall>r \<in> set rows. \<not> is_missing (row_val r c)
                            \<longrightarrow> is_number fl (strip (row_val r c)))))
          (numeric_possible (init_state cols) c)"
    unfolding main_pass_def by blast
  have "row_count st1 = row_count st2"
    by (simp add: rc1 rc2)
  moreover have "missing_counts st1 = missing_counts st2"
    by (rule ext) (simp add: mc1 mc2)
  moreover have "non_missing_seen st1 = non_missing_seen st2"
    by (rule ext) (simp add: nm1 nm2)
  moreover have "numeric_possible st1 = numeric_possible st2"
    by (rule ext) (simp add: np1 np2)
  ultimately show ?thesis
    using p1 p2 by blast
qed

lemma main_returns:
  assumes "0 \<le> args_head inp" "path_exists inp" "path_is_file inp"
    "reader_fieldnames inp = Some cols"
  shows "\<exists>rep. main fl inp = Inr rep \<and>
     rep_row_count rep = int (length (reader_rows inp)) \<and> rep_columns rep = cols \<and>
     length (rep_summary rep) = length cols \<and>
     rep_preview_shown rep = min (args_head inp) (int (length (reader_rows inp))) \<and>
     map snd (rep_preview rep) = take (nat (args_head inp)) (reader_rows inp)"
proof -
  from main_pass_preview [where fl = fl and head = "args_head inp" and cols = cols
      and rows = "reader_rows inp"]
  obtain st where
    p: "main_pass fl (args_head inp) cols (reader_rows inp) = Inr st" and
    hc: "has_columns cols st" and
    rc: "row_count st = int (length (reader_rows inp))" and
    pr: "preview_rows st = [0 ..< min (length (reader_rows inp)) (nat (args_head inp))]" and
    pv: "map (heap st) (preview_rows st) = take (nat (args_head inp)) (reader_rows inp)"
    by blast
  from main_summary_cols [OF hc] obtain summ where
    s: "main_summary st cols = Inr summ" "length summ = length cols"
    by blast
  have pl: "int (length (preview_rows st)) = min (args_head inp) (int (length (reader_rows inp)))"
    using assms(1) by (simp add: pr)
  have z: "map snd (main_preview st) = map (heap st) (preview_rows st)"
    unfolding main_preview_def by (rule map_snd_zip) (simp del: upt_Suc)
  show ?thesis
    using assms by (simp add: main_def p s rc pl pv z)
qed

lemma no_header_row_exits:
  assumes "0 \<le> args_head inp" "path_exists inp" "path_is_file inp"
    "reader_fieldnames inp = None"
  shows "main fl inp = Inl (SystemExit NoHeaderRow)"
  using assms by (simp add: main_def)

lemma blank_header_runs:
  assumes "0 \<le> args_head inp" "path_exists inp" "path_is_file inp"
    "reader_fieldnames inp = Some []"
  shows "\<exists>rep. main fl inp = Inr rep \<and>
     rep_row_count rep = int (length (reader_rows inp)) \<and> rep_columns rep = []"
  using main_returns [OF assms, of fl] by blast

text \<open>
  The model on two inputs: the sample (two rows, \<open>head\<close> 1) gives \<open>numeric\<close> for \<open>a\<close>,
  \<open>text\<close> and one missing value in two (50 percent) for \<open>b\<close>, and a preview of the first
  row; a column \<open>n\<close> with the values of two blanks and \<open>3\<close> counts one missing value
  and one that is not.
\<close>

lemma sample_report:
  "main ascii_float (sample_input 1) =
     Inr \<lparr>rep_row_count = 2, rep_columns = [str_of ''a'', str_of ''b''],
          rep_summary =
            [\<lparr>col_name = str_of ''a'', col_type = str_of ''numeric'', miss = 0, miss_pct = 0\<rparr>,
             \<lparr>col_name = str_of ''b'', col_type = str_of ''text'', miss = 1, miss_pct = 50\<rparr>],
          rep_preview_shown = 1, rep_preview = [(1, hd sample_rows)]\<rparr>"
  by (simp add: main_def sample_input_def main_pass_def sample_columns_def
      sample_rows_def init_state_def dict_from_keys_def reader_next_def main_row_step_def
      main_col_step_def row_val_def is_missing_def strip_def isspace_def str_of_def
      is_number_def ascii_float_def float_space_def ascii_lower_def floatnumber_ok_def digitpart_def
      is_digit_def exponent_ok_def Let_def main_summary_col_def py_truediv_def main_preview_def)

lemma whitespace_counts_missing:
  "after_pass (col_counts (str_of ''n''))
     (main_pass ascii_float 5 [str_of ''n'']
        [[str_of ''n'' \<mapsto> Some (str_of ''  '')], [str_of ''n'' \<mapsto> Some (str_of ''3'')]])
     = Some (Some 1, Some 1, 2)"
  by (simp add: after_pass_def col_counts_def main_pass_def
      init_state_def dict_from_keys_def reader_next_def main_row_step_def
      main_col_step_def row_val_def is_missing_def strip_def isspace_def str_of_def
      is_number_def ascii_float_def float_space_def ascii_lower_def floatnumber_ok_def digitpart_def
      is_digit_def exponent_ok_def Let_def)

section \<open>The statements of the specification\<close>

text \<open>
  C1. For every column of the header, the summary of a finished pass gives one of the
  three labels. The label is \<open>empty\<close> exactly when \<open>non_missing_seen\<close> of the column is 0;
  otherwise it is \<open>numeric\<close> when \<open>numeric_possible\<close> of the column is true and \<open>text\<close> when it
  is false. The three cases exclude each other and cover every sequence of rows: the
  label is \<open>empty\<close> exactly when every value of the column is missing, \<open>numeric\<close> exactly when
  some value is not missing and all of those pass \<open>is_number\<close>, and \<open>text\<close> exactly when some
  value that is not missing fails \<open>is_number\<close>.
\<close>

theorem inferred_type_cases:
  assumes "i < length cols"
  shows "\<exists>st summ.
     main_pass fl head cols rows = Inr st \<and> main_summary st cols = Inr summ \<and>
     length summ = length cols \<and> col_name (summ ! i) = cols ! i \<and>
     col_type (summ ! i) \<in> {str_of ''empty'', str_of ''numeric'', str_of ''text''} \<and>
     (col_type (summ ! i) = str_of ''empty'' \<longleftrightarrow> non_missing_seen st (cols ! i) = Some 0) \<and>
     (col_type (summ ! i) = str_of ''numeric'' \<longleftrightarrow>
        non_missing_seen st (cols ! i) \<noteq> Some 0 \<and> numeric_possible st (cols ! i) = Some True) \<and>
     (col_type (summ ! i) = str_of ''text'' \<longleftrightarrow>
        non_missing_seen st (cols ! i) \<noteq> Some 0 \<and> numeric_possible st (cols ! i) = Some False) \<and>
     (col_type (summ ! i) = str_of ''empty'' \<longleftrightarrow>
        (\<forall>r \<in> set rows. is_missing (row_val r (cols ! i)))) \<and>
     (col_type (summ ! i) = str_of ''numeric'' \<longleftrightarrow>
        (\<exists>r \<in> set rows. \<not> is_missing (row_val r (cols ! i))) \<and>
        (\<forall>r \<in> set rows. \<not> is_missing (row_val r (cols ! i))
            \<longrightarrow> is_number fl (strip (row_val r (cols ! i))))) \<and>
     (col_type (summ ! i) = str_of ''text'' \<longleftrightarrow>
        (\<exists>r \<in> set rows. \<not> is_missing (row_val r (cols ! i)) \<and>
            \<not> is_number fl (strip (row_val r (cols ! i)))))"
proof -
  define c where "c = cols ! i"
  have cin: "c \<in> set cols"
    using assms by (simp add: c_def)
  define k where "k = int (count_list cols c)"
  have "count_list cols c \<noteq> 0"
    using cin by (simp add: count_list_0_iff)
  then have k: "0 < k"
    by (simp add: k_def)
  define nn where "nn = int (length (filter (\<lambda>r. \<not> is_missing (row_val r c)) rows))"
  define b where "b \<longleftrightarrow> (\<forall>r \<in> set rows. \<not> is_missing (row_val r c)
                  \<longrightarrow> is_number fl (strip (row_val r c)))"
  from main_pass_stats [where fl = fl and head = head and cols = cols and rows = rows] cin obtain st m where
    p: "main_pass fl head cols rows = Inr st" and hc: "has_columns cols st" and
    mc: "missing_counts st c = Some m" and
    nm: "non_missing_seen st c = Some (k * nn)" and
    np: "numeric_possible st c = Some b"
    unfolding k_def nn_def b_def by blast
  from main_summary_cols [OF hc] assms obtain summ where
    s: "main_summary st cols = Inr summ" "length summ = length cols" and
    si: "main_summary_col st c = Inr (summ ! i)"
    unfolding c_def by blast
  have nn0: "nn = 0 \<longleftrightarrow> (\<forall>r \<in> set rows. is_missing (row_val r c))"
    by (auto simp: nn_def filter_empty_conv)
  have kn0: "k * nn = 0 \<longleftrightarrow> nn = 0"
    using k by simp
  have nm0: "non_missing_seen st c = Some 0 \<longleftrightarrow> nn = 0"
    using k by (simp add: nm)
  have "col_type (summ ! i) =
     (if k * nn = 0 then str_of ''empty'' else if b then str_of ''numeric'' else str_of ''text'')"
    and nmi: "col_name (summ ! i) = c"
    using main_summary_col_eq [OF mc nm np] si by auto
  then have ty: "col_type (summ ! i) =
     (if nn = 0 then str_of ''empty'' else if b then str_of ''numeric'' else str_of ''text'')"
    by (simp only: kn0)
  have "col_type (summ ! i) \<in> {str_of ''empty'', str_of ''numeric'', str_of ''text''}"
    by (simp add: ty)
  moreover have "col_type (summ ! i) = str_of ''empty'' \<longleftrightarrow> non_missing_seen st c = Some 0"
    using label_distinct by (auto simp: ty nm0)
  moreover have "col_type (summ ! i) = str_of ''numeric'' \<longleftrightarrow>
        non_missing_seen st c \<noteq> Some 0 \<and> numeric_possible st c = Some True"
    using label_distinct by (auto simp: ty nm0 np)
  moreover have "col_type (summ ! i) = str_of ''text'' \<longleftrightarrow>
        non_missing_seen st c \<noteq> Some 0 \<and> numeric_possible st c = Some False"
    using label_distinct by (auto simp: ty nm0 np)
  moreover have "col_type (summ ! i) = str_of ''empty'' \<longleftrightarrow>
        (\<forall>r \<in> set rows. is_missing (row_val r c))"
    using label_distinct by (auto simp: ty nn0)
  moreover have "col_type (summ ! i) = str_of ''numeric'' \<longleftrightarrow>
        (\<exists>r \<in> set rows. \<not> is_missing (row_val r c)) \<and>
        (\<forall>r \<in> set rows. \<not> is_missing (row_val r c)
            \<longrightarrow> is_number fl (strip (row_val r c)))"
    using label_distinct by (auto simp: ty nn0 b_def)
  moreover have "col_type (summ ! i) = str_of ''text'' \<longleftrightarrow>
        (\<exists>r \<in> set rows. \<not> is_missing (row_val r c) \<and>
            \<not> is_number fl (strip (row_val r c)))"
    using label_distinct by (auto simp: ty nn0 b_def)
  ultimately show ?thesis
    using p s nmi unfolding c_def by blast
qed

theorem inferred_type_cases_witness:
  "(1::nat) < length sample_columns \<and>
   (\<exists>st summ. main_pass ascii_float 1 sample_columns sample_rows = Inr st \<and>
      main_summary st sample_columns = Inr summ \<and>
      col_name (summ ! 1) = str_of ''b'' \<and> col_type (summ ! 1) = str_of ''text'')"
proof -
  have h: "(1::nat) < length sample_columns"
    by (simp add: sample_columns_def)
  have c: "sample_columns ! 1 = str_of ''b''"
    by (simp add: sample_columns_def)
  have t: "\<exists>r \<in> set sample_rows. \<not> is_missing (row_val r (str_of ''b'')) \<and>
             \<not> is_number ascii_float (strip (row_val r (str_of ''b'')))"
    by (simp add: sample_rows_def row_val_def is_missing_def strip_def isspace_def str_of_def
        is_number_def ascii_float_def float_space_def ascii_lower_def floatnumber_ok_def digitpart_def
        is_digit_def)
  show ?thesis
    using h t inferred_type_cases [OF h, of ascii_float 1 sample_rows] unfolding c
    by blast
qed

text \<open>
  C2. After any sequence of rows, \<open>numeric_possible\<close> of a column is false exactly when
  some value of the column that is not missing failed \<open>is_number\<close> (on the trimmed value,
  as the loop calls it), and true otherwise. Once it is false it stays false, whatever
  rows follow.
\<close>

theorem numeric_possible_iff_and_monotone:
  assumes "c \<in> set cols"
  shows "\<exists>st st'.
     main_pass fl head cols rows = Inr st \<and>
     main_rows_loop fl head cols later st = Inr st' \<and>
     main_pass fl head cols (rows @ later) = Inr st' \<and>
     (numeric_possible st c = Some False \<longleftrightarrow>
        (\<exists>r \<in> set rows. \<not> is_missing (row_val r c) \<and> \<not> is_number fl (strip (row_val r c)))) \<and>
     (numeric_possible st c = Some True \<longleftrightarrow>
        (\<forall>r \<in> set rows. \<not> is_missing (row_val r c) \<longrightarrow> is_number fl (strip (row_val r c)))) \<and>
     (numeric_possible st c = Some False \<longrightarrow> numeric_possible st' c = Some False)"
proof -
  from main_pass_stats [where fl = fl and head = head and cols = cols and rows = rows] assms
  obtain st where
    p: "main_pass fl head cols rows = Inr st" and
    np: "numeric_possible st c =
          Some (\<forall>r \<in> set rows. \<not> is_missing (row_val r c)
                  \<longrightarrow> is_number fl (strip (row_val r c)))"
    by blast
  from main_pass_stats [where fl = fl and head = head and cols = cols and rows = "rows @ later"] assms
  obtain st' where
    p': "main_pass fl head cols (rows @ later) = Inr st'" and
    np': "numeric_possible st' c =
          Some (\<forall>r \<in> set (rows @ later). \<not> is_missing (row_val r c)
                  \<longrightarrow> is_number fl (strip (row_val r c)))"
    by blast
  have l: "main_rows_loop fl head cols later st = Inr st'"
    using p p' by (simp add: main_pass_def main_rows_loop_append)
  have "numeric_possible st c = Some False \<longrightarrow> numeric_possible st' c = Some False"
    by (auto simp: np np')
  moreover have "numeric_possible st c = Some False \<longleftrightarrow>
        (\<exists>r \<in> set rows. \<not> is_missing (row_val r c) \<and> \<not> is_number fl (strip (row_val r c)))"
    by (auto simp: np)
  moreover have "numeric_possible st c = Some True \<longleftrightarrow>
        (\<forall>r \<in> set rows. \<not> is_missing (row_val r c) \<longrightarrow> is_number fl (strip (row_val r c)))"
    by (auto simp: np)
  ultimately show ?thesis
    using p p' l by blast
qed

theorem numeric_possible_iff_and_monotone_witness:
  "str_of ''b'' \<in> set sample_columns \<and>
   (\<exists>st st'. main_pass ascii_float 1 sample_columns sample_rows = Inr st \<and>
      main_rows_loop ascii_float 1 sample_columns dup_rows st = Inr st' \<and>
      numeric_possible st (str_of ''b'') = Some False \<and>
      numeric_possible st' (str_of ''b'') = Some False)"
proof -
  have h: "str_of ''b'' \<in> set sample_columns"
    by (simp add: sample_columns_def)
  have t: "\<exists>r \<in> set sample_rows. \<not> is_missing (row_val r (str_of ''b'')) \<and>
             \<not> is_number ascii_float (strip (row_val r (str_of ''b'')))"
    by (simp add: sample_rows_def row_val_def is_missing_def strip_def isspace_def str_of_def
        is_number_def ascii_float_def float_space_def ascii_lower_def floatnumber_ok_def digitpart_def
        is_digit_def)
  show ?thesis
    using h t numeric_possible_iff_and_monotone [OF h, of ascii_float 1 sample_rows dup_rows]
    by blast
qed

text \<open>
  C3. The two counters of a column should add up to the number of rows read, each row
  adding 1 to exactly one of them. The loop at lines 102-115 runs over the list of header
  names while the dicts are keyed by name, so a name that the header has twice gets two
  increments per row. For the header \<open>a,a\<close> and the line \<open>7,1\<close> the counters of \<open>a\<close> are 0
  and 2 after 1 row; for the line \<open>7,\<close> the summary shows \<open>missing=2\<close> and 200 percent on
  both of its lines, for 1 row.
\<close>

theorem duplicate_header_counts_twice:
  "after_pass (col_counts (str_of ''a'')) (main_pass ascii_float 5 dup_columns dup_rows)
     = Some (Some 0, Some 2, 1) \<and>
   after_pass (counts_add_up (str_of ''a'')) (main_pass ascii_float 5 dup_columns dup_rows)
     = Some False \<and>
   map_sum id report_stats (main ascii_float dup_blank_input) =
     Inr (1, [str_of ''a'', str_of ''a''],
          [\<lparr>col_name = str_of ''a'', col_type = str_of ''empty'', miss = 2, miss_pct = 200\<rparr>,
           \<lparr>col_name = str_of ''a'', col_type = str_of ''empty'', miss = 2, miss_pct = 200\<rparr>])"
  by (simp add: after_pass_def col_counts_def counts_add_up_def main_pass_def dup_columns_def
      dup_rows_def dup_blank_input_def main_def report_stats_def main_summary_col_def
      py_truediv_def init_state_def dict_from_keys_def reader_next_def main_row_step_def
      main_col_step_def row_val_def is_missing_def strip_def isspace_def str_of_def
      is_number_def ascii_float_def float_space_def ascii_lower_def floatnumber_ok_def
      digitpart_def is_digit_def exponent_ok_def Let_def)

text \<open>
  C4. For every \<open>head\<close> that is not negative and every sequence of rows, the preview
  after the pass has \<open>min head row_count\<close> entries, and read through the heap they are the
  first rows of the sequence, in order. Once the preview holds \<open>head\<close> entries, no later
  row changes it.
\<close>

theorem preview_is_first_rows:
  assumes "0 \<le> head"
  shows "\<exists>st st'.
     main_pass fl head cols rows = Inr st \<and> row_count st = int (length rows) \<and>
     int (length (preview_rows st)) = min head (row_count st) \<and>
     map (heap st) (preview_rows st) = take (nat head) rows \<and>
     main_rows_loop fl head cols later st = Inr st' \<and>
     (head \<le> int (length (preview_rows st)) \<longrightarrow> preview_rows st' = preview_rows st)"
proof -
  from main_pass_preview [where fl = fl and head = head and cols = cols and rows = rows]
  obtain st where
    p: "main_pass fl head cols rows = Inr st" and hc: "has_columns cols st" and
    rc: "row_count st = int (length rows)" and
    pr: "preview_rows st = [0 ..< min (length rows) (nat head)]" and
    pv: "map (heap st) (preview_rows st) = take (nat head) rows"
    by blast
  from rows_loop_heap [OF hc, where fl = fl and head = head and rs = later] obtain st' where
    l: "main_rows_loop fl head cols later st = Inr st'" and
    pr': "preview_rows st' = preview_rows st @
        [next_addr st ..<
           next_addr st + min (length later) (nat (head - int (length (preview_rows st))))]"
    by blast
  have "int (length (preview_rows st)) = min head (row_count st)"
    using assms by (simp add: pr rc)
  moreover have "head \<le> int (length (preview_rows st)) \<longrightarrow> preview_rows st' = preview_rows st"
    by (simp add: pr')
  ultimately show ?thesis
    using p rc pv l by blast
qed

theorem preview_is_first_rows_witness:
  "(0::int) \<le> 1 \<and>
   (\<exists>st. main_pass ascii_float 1 sample_columns sample_rows = Inr st \<and>
      int (length (preview_rows st)) = 1 \<and>
      map (heap st) (preview_rows st) = [hd sample_rows])"
proof -
  have h: "(0::int) \<le> 1"
    by simp
  have l: "int (length sample_rows) = 2" "take (nat 1) sample_rows = [hd sample_rows]"
    by (simp_all add: sample_rows_def)
  from preview_is_first_rows [OF h, of ascii_float sample_columns sample_rows "[]"]
  obtain st where
    "main_pass ascii_float 1 sample_columns sample_rows = Inr st"
    "row_count st = 2" "int (length (preview_rows st)) = min 1 (row_count st)"
    "map (heap st) (preview_rows st) = [hd sample_rows]"
    unfolding l by auto
  then show ?thesis
    by auto
qed

text \<open>
  C5. For every column and every sequence of rows, the empty one included, the summary
  is computed without an error. The percentage of the column is
  \<open>missing_counts / row_count * 100\<close> when \<open>row_count\<close> is positive and 0 when it is 0.
\<close>

theorem missing_pct_guarded:
  assumes "i < length cols"
  shows "\<exists>st summ m.
     main_pass fl head cols rows = Inr st \<and> main_summary st cols = Inr summ \<and>
     length summ = length cols \<and> row_count st = int (length rows) \<and>
     missing_counts st (cols ! i) = Some m \<and> miss (summ ! i) = m \<and>
     (0 < row_count st \<longrightarrow>
        miss_pct (summ ! i) = real_of_int m / real_of_int (row_count st) * 100) \<and>
     (row_count st = 0 \<longrightarrow> miss_pct (summ ! i) = 0)"
proof -
  define c where "c = cols ! i"
  have cin: "c \<in> set cols"
    using assms by (simp add: c_def)
  from main_pass_stats [where fl = fl and head = head and cols = cols and rows = rows] cin
  obtain st m n b where
    p: "main_pass fl head cols rows = Inr st" and hc: "has_columns cols st" and
    rc: "row_count st = int (length rows)" and
    mc: "missing_counts st c = Some m" and
    nm: "non_missing_seen st c = Some n" and
    np: "numeric_possible st c = Some b"
    by blast
  from main_summary_cols [OF hc] assms obtain summ where
    s: "main_summary st cols = Inr summ" "length summ = length cols" and
    si: "main_summary_col st c = Inr (summ ! i)"
    unfolding c_def by blast
  have "miss (summ ! i) = m"
    and "miss_pct (summ ! i) =
      (if row_count st > 0 then real_of_int m / real_of_int (row_count st) * 100 else 0)"
    using main_summary_col_eq [OF mc nm np] si by auto
  then show ?thesis
    using p s rc mc unfolding c_def by auto
qed

theorem missing_pct_guarded_witness:
  "(0::nat) < length sample_columns \<and>
   (\<exists>st summ. main_pass ascii_float 1 sample_columns [] = Inr st \<and>
      main_summary st sample_columns = Inr summ \<and> row_count st = 0 \<and>
      miss_pct (summ ! 0) = 0)"
proof -
  have h: "(0::nat) < length sample_columns"
    by (simp add: sample_columns_def)
  show ?thesis
    using h missing_pct_guarded [OF h, of ascii_float 1 "[]"] by auto
qed

text \<open>
  C6. \<open>is_missing\<close> holds exactly of the values whose trimmed form is the empty string,
  and these are exactly the values made of whitespace only: every whitespace-only string
  (the empty one included) is missing, and a value with one character that is not
  whitespace is not.
\<close>

theorem is_missing_iff_trimmed_empty:
  "(is_missing v \<longleftrightarrow> strip v = []) \<and> (is_missing v \<longleftrightarrow> (\<forall>c \<in> set v. isspace c))"
  by (simp add: is_missing_def strip_empty_iff)

theorem is_missing_iff_trimmed_empty_witness:
  "is_missing (str_of ''  '') \<and> strip (str_of ''  '') = [] \<and>
   list_all isspace (str_of ''  '') \<and>
   \<not> is_missing (str_of '' x '') \<and> strip (str_of '' x '') = str_of ''x''"
  using is_missing_iff_trimmed_empty [of "str_of ''  ''"]
    is_missing_iff_trimmed_empty [of "str_of '' x ''"]
  by (simp add: str_of_def isspace_def strip_def)

text \<open>
  C7. When the row has no entry for a column of the header, or has \<open>None\<close> there, the
  value of the field is the empty string and the step for the column does what it does
  for a row that holds the empty string there: it adds 1 to \<open>missing_counts\<close> of the column
  and raises nothing. The whole row step then returns without an error and leaves
  \<open>non_missing_seen\<close> and \<open>numeric_possible\<close> of the column as they were.
\<close>

theorem absent_or_none_counts_missing:
  assumes "has_columns cols st" and "c \<in> set cols"
    and "heap st a c = None \<or> heap st a c = Some None"
  shows "\<exists>m st'.
     missing_counts st c = Some m \<and> row_val (heap st a) c = [] \<and>
     main_col_step fl a st c = Inr (st\<lparr>missing_counts := (missing_counts st)(c \<mapsto> m + 1)\<rparr>) \<and>
     main_col_step fl a (dict_setitem a c (Some []) st) c =
       Inr ((dict_setitem a c (Some []) st)\<lparr>missing_counts := (missing_counts st)(c \<mapsto> m + 1)\<rparr>) \<and>
     main_row_step fl head cols a st = Inr st' \<and>
     missing_counts st' c = Some (m + int (count_list cols c)) \<and>
     non_missing_seen st' c = non_missing_seen st c \<and>
     numeric_possible st' c = numeric_possible st c"
proof -
  from assms(1,2) obtain m n b where
    d: "missing_counts st c = Some m" "non_missing_seen st c = Some n"
       "numeric_possible st c = Some b"
    by (auto simp: has_columns_def)
  have v: "row_val (heap st a) c = []"
    using assms(3) by (auto simp: row_val_def)
  have e: "is_missing []"
    by (simp add: is_missing_def strip_def)
  have s1: "main_col_step fl a st c =
      Inr (st\<lparr>missing_counts := (missing_counts st)(c \<mapsto> m + 1)\<rparr>)"
    using main_col_step_eq [OF d, of fl a] by (simp add: v e)
  define st0 where "st0 = dict_setitem a c (Some []) st"
  have d0: "missing_counts st0 c = Some m" "non_missing_seen st0 c = Some n"
       "numeric_possible st0 c = Some b"
    by (simp_all add: st0_def dict_setitem_def d)
  have v0: "row_val (heap st0 a) c = []" "missing_counts st0 = missing_counts st"
    by (simp_all add: st0_def dict_setitem_def row_val_def)
  have s2: "main_col_step fl a st0 c =
      Inr (st0\<lparr>missing_counts := (missing_counts st)(c \<mapsto> m + 1)\<rparr>)"
    using main_col_step_eq [OF d0, of fl a] by (simp add: v0 e)
  from row_step_effect [OF assms(1), of fl head a] obtain st' where
    r: "main_row_step fl head cols a st = Inr st'" and
    mc: "missing_counts st' c =
        map_option (\<lambda>m. m + (if is_missing (row_val (heap st a) c) then int (count_list cols c) else 0))
          (missing_counts st c)" and
    nm: "non_missing_seen st' c =
        map_option (\<lambda>n. n + (if is_missing (row_val (heap st a) c) then 0 else int (count_list cols c)))
          (non_missing_seen st c)" and
    np: "numeric_possible st' c =
        map_option (\<lambda>b. b \<and> (c \<in> set cols \<and> \<not> is_missing (row_val (heap st a) c)
                            \<longrightarrow> is_number fl (strip (row_val (heap st a) c))))
          (numeric_possible st c)"
    by blast
  have "missing_counts st' c = Some (m + int (count_list cols c))"
    "non_missing_seen st' c = non_missing_seen st c"
    "numeric_possible st' c = numeric_possible st c"
    by (simp_all add: mc nm np v e d)
  then show ?thesis
    using d(1) v s1 s2 r unfolding st0_def by blast
qed

theorem absent_or_none_counts_missing_witness:
  "has_columns sample_columns
     (snd (reader_next [str_of ''a'' \<mapsto> Some (str_of ''1''), str_of ''b'' \<mapsto> None]
        (init_state sample_columns))) \<and>
   str_of ''b'' \<in> set sample_columns \<and>
   heap (snd (reader_next [str_of ''a'' \<mapsto> Some (str_of ''1''), str_of ''b'' \<mapsto> None]
        (init_state sample_columns))) 0 (str_of ''b'') = Some None \<and>
   (\<exists>st'. main_row_step ascii_float 1 sample_columns 0
       (snd (reader_next [str_of ''a'' \<mapsto> Some (str_of ''1''), str_of ''b'' \<mapsto> None]
          (init_state sample_columns))) = Inr st' \<and>
      missing_counts st' (str_of ''b'') = Some 1 \<and>
      non_missing_seen st' (str_of ''b'') = Some 0 \<and>
      numeric_possible st' (str_of ''b'') = Some True)"
proof -
  define st where "st = snd (reader_next
     [str_of ''a'' \<mapsto> Some (str_of ''1''), str_of ''b'' \<mapsto> None] (init_state sample_columns))"
  have h1: "has_columns sample_columns st"
    using has_columns_init [of sample_columns]
    by (simp add: st_def reader_next_def has_columns_def)
  have h2: "str_of ''b'' \<in> set sample_columns"
    by (simp add: sample_columns_def)
  have h3: "heap st 0 (str_of ''b'') = Some None"
    by (simp add: st_def reader_next_def init_state_def)
  have h3': "heap st 0 (str_of ''b'') = None \<or> heap st 0 (str_of ''b'') = Some None"
    using h3 by simp
  have i: "missing_counts st (str_of ''b'') = Some 0"
    "non_missing_seen st (str_of ''b'') = Some 0"
    "numeric_possible st (str_of ''b'') = Some True"
    "count_list sample_columns (str_of ''b'') = 1"
    by (simp_all add: st_def reader_next_def init_state_def dict_from_keys_apply
        sample_columns_def str_of_def)
  show ?thesis
    using h1 h2 h3 absent_or_none_counts_missing [OF h1 h2 h3', of ascii_float 1]
    unfolding st_def [symmetric] by (auto simp: i)
qed

text \<open>
  C8. \<open>main\<close> exits with \<open>Could not read header row (no columns found)\<close> only when
  \<open>reader.fieldnames\<close> is \<open>None\<close> (\<open>no_header_row_exits\<close>). For a blank first line the reader
  gives the empty list of names: \<open>main\<close> then reads the rows, counts them and returns a
  report with no columns (\<open>blank_header_runs\<close>), as on this input of one data line.
\<close>

theorem blank_header_is_profiled:
  "main ascii_float
     \<lparr>args_head = 5, path_exists = True, path_is_file = True,
      reader_fieldnames = Some [], reader_rows = [Map.empty]\<rparr> =
   Inr \<lparr>rep_row_count = 1, rep_columns = [], rep_summary = [],
        rep_preview_shown = 1, rep_preview = [(1, Map.empty)]\<rparr>"
  by (simp add: main_def main_pass_def init_state_def dict_from_keys_def reader_next_def
      main_row_step_def main_preview_def)

text \<open>
  C9 does not hold as a statement about copies: \<open>preview_rows.append(row)\<close> stores a
  reference. After the pass over the sample the preview shows \<open>1\<close> under \<open>a\<close>; after
  \<open>row["a"] = "9"\<close> on the first row object it shows \<open>9\<close>.
\<close>

theorem preview_alias_counterexample:
  "after_pass (preview_field (str_of ''a''))
     (main_pass ascii_float 1 sample_columns sample_rows)
     = Some [Some (Some (str_of ''1''))] \<and>
   after_pass (preview_field (str_of ''a'') \<circ> dict_setitem 0 (str_of ''a'') (Some (str_of ''9'')))
     (main_pass ascii_float 1 sample_columns sample_rows)
     = Some [Some (Some (str_of ''9''))]"
  by (simp add: after_pass_def preview_field_def main_preview_def dict_setitem_def
      main_pass_def sample_columns_def
      sample_rows_def init_state_def dict_from_keys_def reader_next_def main_row_step_def
      main_col_step_def row_val_def is_missing_def strip_def isspace_def str_of_def
      is_number_def ascii_float_def float_space_def ascii_lower_def floatnumber_ok_def digitpart_def
      is_digit_def exponent_ok_def Let_def)

text \<open>
  C9, amended. When the row step captures a row (the preview being shorter than \<open>head\<close>),
  it appends the reference to the row object and leaves the heap as it is. The pass never
  writes to a row object: whatever rows follow, the reference stays at its place in the
  preview and the object it refers to has the contents it had when it was captured.
\<close>

theorem preview_keeps_references:
  assumes "has_columns cols st" and "a < next_addr st"
    and "int (length (preview_rows st)) < head"
  shows "\<exists>st1 st2.
     main_row_step fl head cols a st = Inr st1 \<and>
     preview_rows st1 = preview_rows st @ [a] \<and> heap st1 = heap st \<and>
     main_rows_loop fl head cols later st1 = Inr st2 \<and>
     take (Suc (length (preview_rows st))) (preview_rows st2) = preview_rows st @ [a] \<and>
     heap st2 a = heap st a"
proof -
  from row_step_effect [OF assms(1), of fl head a] obtain st1 where
    r: "main_row_step fl head cols a st = Inr st1" and
    f: "heap st1 = heap st" "next_addr st1 = next_addr st" and
    pr: "preview_rows st1 =
       (if int (length (preview_rows st)) < head then preview_rows st @ [a] else preview_rows st)" and
    mc: "\<And>c. missing_counts st1 c =
        map_option (\<lambda>m. m + (if is_missing (row_val (heap st a) c) then int (count_list cols c) else 0))
          (missing_counts st c)" and
    nm: "\<And>c. non_missing_seen st1 c =
        map_option (\<lambda>n. n + (if is_missing (row_val (heap st a) c) then 0 else int (count_list cols c)))
          (non_missing_seen st c)" and
    np: "\<And>c. numeric_possible st1 c =
        map_option (\<lambda>b. b \<and> (c \<in> set cols \<and> \<not> is_missing (row_val (heap st a) c)
                            \<longrightarrow> is_number fl (strip (row_val (heap st a) c))))
          (numeric_possible st c)"
    by blast
  have hc1: "has_columns cols st1"
    by (rule has_columns_preserved [OF assms(1) mc nm np])
  have pr1: "preview_rows st1 = preview_rows st @ [a]"
    using pr assms(3) by simp
  from rows_loop_heap [OF hc1, where fl = fl and head = head and rs = later] obtain st2 where
    l: "main_rows_loop fl head cols later st1 = Inr st2" and
    h2: "\<And>x. heap st2 x =
        (if next_addr st1 \<le> x \<and> x < next_addr st1 + length later
         then later ! (x - next_addr st1) else heap st1 x)" and
    pr2: "preview_rows st2 = preview_rows st1 @
        [next_addr st1 ..<
           next_addr st1 + min (length later) (nat (head - int (length (preview_rows st1))))]"
    by blast
  have "heap st2 a = heap st a"
    using assms(2) by (simp add: h2 f)
  moreover have "take (Suc (length (preview_rows st))) (preview_rows st2) = preview_rows st @ [a]"
    by (simp add: pr2 pr1)
  ultimately show ?thesis
    using r pr1 f(1) l by blast
qed

theorem preview_keeps_references_witness:
  "has_columns sample_columns (snd (reader_next (hd sample_rows) (init_state sample_columns))) \<and>
   (0::nat) < next_addr (snd (reader_next (hd sample_rows) (init_state sample_columns))) \<and>
   int (length (preview_rows (snd (reader_next (hd sample_rows) (init_state sample_columns))))) < 1 \<and>
   (\<exists>st1 st2.
      main_row_step ascii_float 1 sample_columns 0
        (snd (reader_next (hd sample_rows) (init_state sample_columns))) = Inr st1 \<and>
      preview_rows st1 = [0] \<and>
      main_rows_loop ascii_float 1 sample_columns (tl sample_rows) st1 = Inr st2 \<and>
      take (Suc 0) (preview_rows st2) = [0] \<and> heap st2 0 = hd sample_rows)"
proof -
  define st where "st = snd (reader_next (hd sample_rows) (init_state sample_columns))"
  have h1: "has_columns sample_columns st"
    using has_columns_init [of sample_columns]
    by (simp add: st_def reader_next_def has_columns_def)
  have h2: "0 < next_addr st"
    by (simp add: st_def reader_next_def)
  have h3: "int (length (preview_rows st)) < 1"
    by (simp add: st_def reader_next_def init_state_def)
  have i: "preview_rows st = []" "heap st 0 = hd sample_rows"
    by (simp_all add: st_def reader_next_def init_state_def)
  show ?thesis
    using h1 h2 h3
      preview_keeps_references [OF h1 h2 h3, of ascii_float "tl sample_rows"]
    unfolding st_def [symmetric] by (auto simp: i)
qed

text \<open>
  C10. Two runs of \<open>main\<close> that differ only in \<open>head\<close> (not negative in both) end alike,
  and when they return a report they return the same row count, the same columns and
  the same summary of every column. The lemma \<open>pass_stats_independent_of_head\<close> is the
  same fact for the counters, for any two values of \<open>head\<close>.
\<close>

theorem statistics_independent_of_head:
  assumes "0 \<le> h1" and "0 \<le> h2"
  shows "map_sum id report_stats (main fl (inp\<lparr>args_head := h1\<rparr>)) =
         map_sum id report_stats (main fl (inp\<lparr>args_head := h2\<rparr>))"
proof (cases "reader_fieldnames inp")
  case None
  then show ?thesis
    using assms by (simp add: main_def)
next
  case (Some cols)
  from pass_stats_independent_of_head [of fl h1 cols "reader_rows inp" h2]
  obtain st1 st2 where
    p: "main_pass fl h1 cols (reader_rows inp) = Inr st1"
       "main_pass fl h2 cols (reader_rows inp) = Inr st2" and
    e: "row_count st1 = row_count st2" "missing_counts st1 = missing_counts st2"
       "non_missing_seen st1 = non_missing_seen st2"
       "numeric_possible st1 = numeric_possible st2"
    by blast
  have s: "main_summary st1 cols = main_summary st2 cols"
    by (rule main_summary_cong [OF e])
  show ?thesis
    using assms by (simp add: main_def Some p s e(1) report_stats_def split: sum.splits)
qed

theorem statistics_independent_of_head_witness:
  "(0::int) \<le> 1 \<and> (0::int) \<le> 5 \<and>
   (\<exists>rep. main ascii_float (sample_input 1) = Inr rep) \<and>
   map_sum id report_stats (main ascii_float (sample_input 1)) =
   map_sum id report_stats (main ascii_float (sample_input 5))"
proof -
  have h1: "(0::int) \<le> 1" and h2: "(0::int) \<le> 5"
    by simp_all
  have u: "(sample_input 0)\<lparr>args_head := h\<rparr> = sample_input h" for h
    by (simp add: sample_input_def)
  have r: "\<exists>rep. main ascii_float (sample_input 1) = Inr rep"
    using main_returns [of "sample_input 1" sample_columns ascii_float]
    by (auto simp: sample_input_def)
  show ?thesis
    using r statistics_independent_of_head [OF h1 h2, of ascii_float "sample_input 0"]
    unfolding u by simp
qed

end
